theory Spec2Isabelle
  imports Main "HOL-Library.Word" "HOL-Library.Signed_Division"
begin

unbundle bit_operations_syntax

section \<open>Machine integers of the sketch\<close>

text \<open>
  \<^verbatim>\<open>Stepper.cpp\<close> computes with \<^verbatim>\<open>int\<close>, \<^verbatim>\<open>long\<close> and \<^verbatim>\<open>unsigned long\<close>. The model
  fixes the widths of the 32-bit Arduino cores (ESP8266, ESP32, SAM, SAMD: ILP32), where
  all three are 32 bits wide: every such value is a \<open>32 word\<close>; \<open>+\<close>, \<open>-\<close> and \<open>*\<close> wrap
  around, \<open>sint\<close> reads a word as the signed value of an \<^verbatim>\<open>int\<close> or \<^verbatim>\<open>long\<close>, \<open>unat\<close>
  as the value of an \<^verbatim>\<open>unsigned long\<close>, and the conversions between them keep the bits.
  Signed comparison is \<open><s\<close> and \<open>\<le>s\<close>.

  The header \<^verbatim>\<open>Stepper.h\<close> is not part of the sources at hand. The fields it declares
  are taken as the library declares them: \<^verbatim>\<open>int number_of_steps\<close>,
  \<^verbatim>\<open>unsigned long step_delay\<close> and \<^verbatim>\<open>int motor_pin[4]\<close>.
\<close>

text \<open>C's \<^verbatim>\<open>/\<close> and \<^verbatim>\<open>%\<close> on signed operands: the quotient is truncated towards zero
  and the remainder has the sign of the dividend. The divisor is not zero here; the
  callers check that before they divide.\<close>

definition int_div :: "32 word \<Rightarrow> 32 word \<Rightarrow> 32 word" where
  "int_div a b = word_of_int (sint a sdiv sint b)"

definition int_rem :: "32 word \<Rightarrow> 32 word \<Rightarrow> 32 word" where
  "int_rem a b = word_of_int (sint a smod sint b)"

text \<open>\<^verbatim>\<open>abs\<close> on \<^verbatim>\<open>int\<close>. At \<^verbatim>\<open>INT_MIN\<close> the negation wraps back to \<^verbatim>\<open>INT_MIN\<close>
  (the C standard leaves that case undefined).\<close>

definition int_abs :: "32 word \<Rightarrow> 32 word" where
  "int_abs x = (if x <s 0 then - x else x)"

section \<open>The driver object and the board\<close>

record Stepper =
  number_of_steps :: "32 word"
  step_delay :: "32 word"
  motor_pin :: "32 word list"

text \<open>
  The Arduino core as the driver sees it: \<^verbatim>\<open>micros()\<close>, \<^verbatim>\<open>pinMode\<close> and
  \<^verbatim>\<open>digitalWrite\<close>. The microsecond counter is the sequence of values that successive
  calls of \<^verbatim>\<open>micros()\<close> return: \<open>clock b k\<close> is the value of call number \<open>k\<close>, and
  \<open>polls b\<close> counts the calls made so far. \<open>pins b\<close> is the level last written to each
  pin, \<open>writes b\<close> the log of all \<^verbatim>\<open>digitalWrite\<close> calls in order, and \<open>modes b\<close> the
  pins configured as \<^verbatim>\<open>OUTPUT\<close>. \<open>emitted b\<close> is an observation log with one entry for
  each call of \<^verbatim>\<open>stepMotor\<close> made by \<^verbatim>\<open>step\<close>: the clock value \<^verbatim>\<open>now\<close> of the
  loop iteration that made the call, and the argument of the call.
\<close>

record board =
  clock :: "nat \<Rightarrow> 32 word"
  polls :: nat
  modes :: "32 word list"
  pins :: "32 word \<Rightarrow> bool"
  writes :: "(32 word \<times> bool) list"
  emitted :: "(32 word \<times> 32 word) list"

definition micros :: "board \<Rightarrow> 32 word \<times> board" where
  "micros b = (clock b (polls b), b\<lparr>polls := Suc (polls b)\<rparr>)"

definition pinMode :: "32 word \<Rightarrow> board \<Rightarrow> board" where
  "pinMode pin b = b\<lparr>modes := modes b @ [pin]\<rparr>"

definition digitalWrite :: "32 word \<Rightarrow> bool \<Rightarrow> board \<Rightarrow> board" where
  "digitalWrite pin val b = b\<lparr>pins := (pins b)(pin := val), writes := writes b @ [(pin, val)]\<rparr>"

text \<open>The macro \<^verbatim>\<open>bitRead(value, bit)\<close> is \<^verbatim>\<open>(((value) >> (bit)) & 0x01)\<close>.\<close>

definition bitRead :: "32 word \<Rightarrow> 32 word \<Rightarrow> 32 word" where
  "bitRead val bit_no = signed_drop_bit (unat bit_no) val AND 1"

section \<open>The driver\<close>

datatype fault = DivisionFault

text \<open>
  \<^verbatim>\<open>setSpeed\<close> divides without a check. A zero divisor is a fault of the division
  itself (the language leaves the quotient undefined), so it is a result of its own
  here. The dividend \<^verbatim>\<open>60L * 1000L * 1000L\<close> is the \<^verbatim>\<open>long\<close> 60000000.
\<close>

definition setSpeed :: "32 word \<Rightarrow> Stepper \<Rightarrow> fault + Stepper" where
  "setSpeed whatSpeed s =
     (if number_of_steps s = 0 then Inl DivisionFault
      else if whatSpeed = 0 then Inl DivisionFault
      else Inr (s\<lparr>step_delay := int_div (int_div 60000000 (number_of_steps s)) whatSpeed\<rparr>))"

definition Stepper_new ::
  "32 word \<Rightarrow> 32 word \<Rightarrow> 32 word \<Rightarrow> 32 word \<Rightarrow> 32 word \<Rightarrow> 32 word \<Rightarrow> board
     \<Rightarrow> fault + (Stepper \<times> board)" where
  "Stepper_new n whatSpeed motor_pin_1 motor_pin_2 motor_pin_3 motor_pin_4 b =
     (case setSpeed whatSpeed \<lparr>number_of_steps = n, step_delay = 0, motor_pin = []\<rparr> of
        Inl e \<Rightarrow> Inl e
      | Inr s \<Rightarrow>
          let s' = s\<lparr>motor_pin := [motor_pin_1, motor_pin_2, motor_pin_3, motor_pin_4]\<rparr>
          in Inr (s', fold (\<lambda>i. pinMode (motor_pin s' ! i)) [0, 1, 2, 3] b))"

definition stepMotor :: "Stepper \<Rightarrow> 32 word \<Rightarrow> board \<Rightarrow> board" where
  "stepMotor s thisStep b =
     fold (\<lambda>i. digitalWrite (motor_pin s ! i) (bitRead 0xCC (thisStep + of_nat i) \<noteq> 0))
       [0, 1, 2, 3] b"

definition resetMotor :: "Stepper \<Rightarrow> board \<Rightarrow> board" where
  "resetMotor s b = fold (\<lambda>i. digitalWrite (motor_pin s ! i) False) [0, 1, 2, 3] b"

text \<open>The pieces of one iteration of the loop of \<^verbatim>\<open>step\<close>: the wait \<^verbatim>\<open>esti\<close> required
  before the next step, the test \<^verbatim>\<open>left >= esti\<close> (a comparison of two \<^verbatim>\<open>int\<close>s), and
  the argument \<^verbatim>\<open>(4 + (steps_left * direction) % 4) % 4\<close> of \<^verbatim>\<open>stepMotor\<close>.\<close>

definition esti :: "Stepper \<Rightarrow> 32 word \<Rightarrow> 32 word" where
  "esti s steps_left =
     (if steps_left <s 10 then step_delay s + steps_left * 100 else step_delay s)"

definition due :: "Stepper \<Rightarrow> 32 word \<Rightarrow> 32 word \<Rightarrow> 32 word \<Rightarrow> bool" where
  "due s last_step_time steps_left now = (esti s steps_left \<le>s now - last_step_time)"

definition phase :: "32 word \<Rightarrow> 32 word \<Rightarrow> 32 word" where
  "phase steps_left direction = int_rem (4 + int_rem (steps_left * direction) 4) 4"

text \<open>The polling loop. It has no bound of its own: whether it ends depends on the
  values the clock returns, so the result is an option and \<open>None\<close> stands for a loop
  that never ends.\<close>

partial_function (option) step_loop ::
  "Stepper \<Rightarrow> 32 word \<Rightarrow> 32 word \<Rightarrow> 32 word \<Rightarrow> board \<Rightarrow> board option" where
  "step_loop s direction last_step_time steps_left b =
     (if 0 <s steps_left then
        (case micros b of (now, b1) \<Rightarrow>
           if due s last_step_time steps_left now then
             let steps_left' = steps_left - 1;
                 steps = phase steps_left' direction;
                 b2 = stepMotor s steps b1
             in step_loop s direction now steps_left'
                  (b2\<lparr>emitted := emitted b2 @ [(now, steps)]\<rparr>)
           else step_loop s direction last_step_time steps_left b1)
      else Some b)"

declare step_loop.simps [code]

definition step :: "32 word \<Rightarrow> Stepper \<Rightarrow> board \<Rightarrow> (Stepper \<times> board) option" where
  "step steps_to_move s b =
     (if steps_to_move \<noteq> 0 then
        let last_step_time = 0;
            steps_left = int_abs steps_to_move;
            direction = int_div steps_left (- steps_to_move)
        in (case step_loop s direction last_step_time steps_left b of
              None \<Rightarrow> None
            | Some b' \<Rightarrow> Some (s, resetMotor s b'))
      else Some (s, b))"

definition version :: "32 word" where
  "version = 5"

section \<open>Notions used to state the properties of a move\<close>

text \<open>
  The loop of \<^verbatim>\<open>step\<close> ends only if the clock lets it. \<open>clock_live s c\<close> says that the
  clock \<open>c\<close> does: whatever the time of the last step and the (positive) number of steps
  left, polling from any call on eventually returns a value at which the test of the loop
  succeeds. A clock that stands still does not have the property; a clock that advances
  by a bounded positive amount between two calls has it (\<open>steady_clock_live\<close> below).
\<close>

definition clock_live :: "Stepper \<Rightarrow> (nat \<Rightarrow> 32 word) \<Rightarrow> bool" where
  "clock_live s c \<longleftrightarrow>
     (\<forall>k last_step_time steps_left. 0 <s steps_left \<longrightarrow>
        (\<exists>k'\<ge>k. due s last_step_time steps_left (c k')))"

text \<open>
  \<open>take_step\<close> is the branch of the loop body that takes a step, on the board after the
  call of \<^verbatim>\<open>micros()\<close>. \<open>steps_ok s d t n es\<close> says that the log entries \<open>es\<close> are those
  of \<open>n\<close> steps taken in direction \<open>d\<close> after a last step at time \<open>t\<close>: each entry was
  due when it was logged and carries the argument computed from the steps then left.
\<close>

definition take_step :: "Stepper \<Rightarrow> 32 word \<Rightarrow> 32 word \<Rightarrow> 32 word \<Rightarrow> board \<Rightarrow> board" where
  "take_step s d steps_left now b =
     (let b2 = stepMotor s (phase (steps_left - 1) d) b
      in b2\<lparr>emitted := emitted b2 @ [(now, phase (steps_left - 1) d)]\<rparr>)"

fun steps_ok :: "Stepper \<Rightarrow> 32 word \<Rightarrow> 32 word \<Rightarrow> nat \<Rightarrow> (32 word \<times> 32 word) list \<Rightarrow> bool" where
  "steps_ok s d last_step_time n [] = (n = 0)"
| "steps_ok s d last_step_time n ((now, i) # es) =
     (0 < n \<and> due s last_step_time (of_nat n) now \<and> i = phase (of_nat (n - 1)) d \<and>
      steps_ok s d now (n - 1) es)"

section \<open>An example configuration\<close>

text \<open>A 200-step motor at 60 revolutions per minute on pins 8 to 11, and a board whose
  clock advances by one millisecond from one call of \<^verbatim>\<open>micros()\<close> to the next.\<close>

definition demo_stepper :: Stepper where
  "demo_stepper = \<lparr>number_of_steps = 200, step_delay = 5000, motor_pin = [8, 9, 10, 11]\<rparr>"

definition demo_board :: board where
  "demo_board = \<lparr>clock = (\<lambda>k. of_nat k * 1000), polls = 0, modes = [], pins = (\<lambda>_. True),
     writes = [], emitted = []\<rparr>"

section \<open>Signed and unsigned readings of a word\<close>

lemma sint_of_nat_small: "n < 2 ^ 31 \<Longrightarrow> sint (of_nat n :: 32 word) = int n"
  by (simp add: signed_of_nat signed_take_bit_int_eq_self)

lemma sint_word_of_int_small:
  "- (2 ^ 31) \<le> k \<Longrightarrow> k < 2 ^ 31 \<Longrightarrow> sint (word_of_int k :: 32 word) = k"
  by (simp add: signed_of_int signed_take_bit_int_eq_self)

lemma sdiv_pos: "0 \<le> a \<Longrightarrow> 0 < b \<Longrightarrow> (a::int) sdiv b = a div b"
  by (cases "a = 0") (simp_all add: signed_divide_int_def)

lemma smod_pos: "0 \<le> a \<Longrightarrow> 0 < b \<Longrightarrow> (a::int) smod b = a mod b"
  by (cases "a = 0") (simp_all add: signed_modulo_int_def)

lemma sint_bounds32: "- (2 ^ 31) \<le> sint (x::32 word)" "sint (x::32 word) < 2 ^ 31"
  using sint_ge [of x] sint_lt [of x] by simp_all

lemma uint_sint_nonneg: 
  assumes "0 \<le> sint (x::32 word)" shows "uint x = sint x"
proof -
  have "sint x < 2 ^ 32" using sint_bounds32(2) [of x] by simp
  with assms have "take_bit 32 (sint x) = sint x"
    by (simp add: take_bit_int_eq_self)
  then show ?thesis by (simp add: uint_sint)
qed

lemma sint_nonneg_unat: "0 \<le> sint (x::32 word) \<Longrightarrow> sint x = int (unat x)"
  by (simp add: uint_sint_nonneg [symmetric])

lemma sint_unat_small: 
  assumes "unat (x :: 32 word) < 2 ^ 31" shows "sint x = int (unat x)"
proof -
  have "int (unat x) < int (2 ^ 31)" using assms by (rule iffD2 [OF of_nat_less_iff])
  then have "uint x < 2 ^ 31" by simp
  moreover have "- (2 ^ 31) \<le> uint x"
    by (rule order_trans [of _ 0]) simp_all
  ultimately have "signed_take_bit 31 (uint x) = uint x"
    by (simp add: signed_take_bit_int_eq_self)
  then show ?thesis by (simp add: sint_uint)
qed

lemma int_div_nonneg:
  assumes "0 \<le> sint a" "0 < sint b"
  shows "sint (int_div a b) = sint a div sint b"
proof -
  have le: "sint a div sint b \<le> sint a"
    using assms zdiv_mono2 [of "sint a" 1 "sint b"] by simp
  have "0 \<le> sint a div sint b" using assms by (simp add: pos_imp_zdiv_nonneg_iff)
  with le sint_bounds32(2) [of a] show ?thesis
    using assms by (simp add: int_div_def sdiv_pos sint_word_of_int_small)
qed

section \<open>Setting the speed\<close>

lemma setSpeed_valid:
  assumes n: "0 <s number_of_steps s" and r: "0 <s whatSpeed"
  shows "\<exists>s'. setSpeed whatSpeed s = Inr s' \<and> s' = s\<lparr>step_delay := step_delay s'\<rparr> \<and>
     unat (step_delay s') = 60000000 div unat (number_of_steps s) div unat whatSpeed"
proof -
  let ?n = "number_of_steps s"
  have n0: "0 < sint ?n" and r0: "0 < sint whatSpeed"
    using n r by (simp_all add: word_sless_alt)
  have nz: "?n \<noteq> 0" "whatSpeed \<noteq> 0" using n0 r0 by auto
  have c: "sint (60000000 :: 32 word) = 60000000" by simp
  have q: "sint (int_div 60000000 ?n) = 60000000 div sint ?n"
    using int_div_nonneg [of 60000000 ?n] n0 by simp
  have q0: "0 \<le> sint (int_div 60000000 ?n)"
    using n0 by (simp add: q pos_imp_zdiv_nonneg_iff)
  have d: "sint (int_div (int_div 60000000 ?n) whatSpeed) = 60000000 div sint ?n div sint whatSpeed"
    using int_div_nonneg [OF q0 r0] by (simp add: q)
  have d0: "0 \<le> sint (int_div (int_div 60000000 ?n) whatSpeed)"
    using n0 r0 by (simp add: d pos_imp_zdiv_nonneg_iff)
  have "uint (int_div (int_div 60000000 ?n) whatSpeed) = 60000000 div uint ?n div uint whatSpeed"
    using uint_sint_nonneg [OF d0] d n0 r0
    by (simp add: uint_sint_nonneg [of ?n] uint_sint_nonneg [of whatSpeed])
  then have "nat (uint (int_div (int_div 60000000 ?n) whatSpeed)) =
        nat (60000000 div uint ?n div uint whatSpeed)"
    by simp
  also have "\<dots> = nat (60000000 div uint ?n) div nat (uint whatSpeed)"
    by (rule nat_div_distrib') simp
  also have "nat (60000000 div uint ?n) = nat 60000000 div nat (uint ?n)"
    by (rule nat_div_distrib) simp
  finally have "unat (int_div (int_div 60000000 ?n) whatSpeed) =
        60000000 div unat ?n div unat whatSpeed"
    by simp
  then show ?thesis using nz by (simp add: setSpeed_def)
qed

lemma setSpeed_delay_bound:
  assumes "0 <s number_of_steps s" and "0 <s whatSpeed" and "setSpeed whatSpeed s = Inr s'"
  shows "unat (step_delay s') \<le> 60000000"
proof -
  obtain t where t: "setSpeed whatSpeed s = Inr t"
    "unat (step_delay t) = 60000000 div unat (number_of_steps s) div unat whatSpeed"
    using setSpeed_valid [OF assms(1,2)] by blast
  have "60000000 div unat (number_of_steps s) div unat whatSpeed
          \<le> 60000000 div unat (number_of_steps s)"
    by (rule div_le_dividend)
  also have "\<dots> \<le> 60000000" by (rule div_le_dividend)
  finally show ?thesis using t assms(3) by simp
qed

text \<open>
  Claim C7. With a positive number of steps per revolution and a positive speed,
  \<^verbatim>\<open>setSpeed\<close> stores exactly \<open>60000000 / number_of_steps / whatSpeed\<close> (integer
  division) as the step delay and changes no other field. For 200 steps per revolution
  and 60 rpm the delay is 5000 microseconds.
\<close>

theorem setSpeed_step_delay:
  assumes "0 <s number_of_steps s" and "0 <s whatSpeed"
  shows "\<exists>s'. setSpeed whatSpeed s = Inr s' \<and> number_of_steps s' = number_of_steps s \<and>
     motor_pin s' = motor_pin s \<and>
     unat (step_delay s') = 60000000 div unat (number_of_steps s) div unat whatSpeed"
proof -
  obtain s' where s': "setSpeed whatSpeed s = Inr s'" "s' = s\<lparr>step_delay := step_delay s'\<rparr>"
     "unat (step_delay s') = 60000000 div unat (number_of_steps s) div unat whatSpeed"
    using setSpeed_valid [OF assms] by blast
  have "number_of_steps s' = number_of_steps s" "motor_pin s' = motor_pin s"
    by (subst s'(2), simp)+
  with s' show ?thesis by blast
qed

theorem setSpeed_step_delay_witness:
  "(0 :: 32 word) <s 200 \<and> (0 :: 32 word) <s 60 \<and>
   (\<exists>s'. setSpeed 60 (demo_stepper\<lparr>step_delay := 0\<rparr>) = Inr s' \<and> unat (step_delay s') = 5000)"
proof -
  have h: "0 <s number_of_steps (demo_stepper\<lparr>step_delay := 0\<rparr>)" "(0 :: 32 word) <s 60"
    by (simp_all add: demo_stepper_def word_sless_alt)
  show ?thesis
    using setSpeed_step_delay [OF h] h by (auto simp add: demo_stepper_def)
qed

text \<open>
  Claim C2, as stated: a speed of zero is rejected with a configuration error instead of
  being divided by. The code divides: with a speed of zero both \<^verbatim>\<open>setSpeed\<close> and the
  constructor run into the division by zero.
\<close>

theorem setSpeed_zero_rpm_faults:
  "setSpeed 0 demo_stepper = Inl DivisionFault \<and>
   Stepper_new 200 0 8 9 10 11 demo_board = Inl DivisionFault"
  by (simp add: setSpeed_def Stepper_new_def demo_stepper_def)

text \<open>
  Claim C2, amended. \<^verbatim>\<open>setSpeed\<close> and the constructor validate nothing and have no
  error to report: they always divide, and the division faults exactly when the number
  of steps per revolution or the speed is zero.
\<close>

theorem setSpeed_unguarded:
  "(setSpeed whatSpeed s = Inl DivisionFault \<longleftrightarrow> number_of_steps s = 0 \<or> whatSpeed = 0) \<and>
   (Stepper_new n whatSpeed p1 p2 p3 p4 b = Inl DivisionFault \<longleftrightarrow> n = 0 \<or> whatSpeed = 0)"
proof -
  have a: "setSpeed r t = Inl DivisionFault \<longleftrightarrow> number_of_steps t = 0 \<or> r = 0" for r t
    by (simp add: setSpeed_def)
  have e: "e = DivisionFault" for e :: fault
    by (cases e) simp
  have "Stepper_new n whatSpeed p1 p2 p3 p4 b = Inl DivisionFault \<longleftrightarrow>
        setSpeed whatSpeed \<lparr>number_of_steps = n, step_delay = 0, motor_pin = []\<rparr> = Inl DivisionFault"
    unfolding Stepper_new_def
    by (cases "setSpeed whatSpeed \<lparr>number_of_steps = n, step_delay = 0, motor_pin = []\<rparr>")
       (simp_all only: sum.case Let_def sum.distinct sum.inject simp_thms)
  then show ?thesis by (simp add: a)
qed

section \<open>The wait before a step\<close>

lemma esti_value:
  assumes sd: "unat (step_delay s) < 2 ^ 31 - 900" and k: "k < 2 ^ 31"
  shows "sint (esti s (of_nat k)) = int (unat (step_delay s) + (if k < 10 then 100 * k else 0))"
proof -
  have lt: "(of_nat k <s (10 :: 32 word)) = (k < 10)"
    using k by (simp add: word_sless_alt sint_of_nat_small)
  show ?thesis
  proof (cases "k < 10")
    case True
    have "step_delay s + of_nat k * 100 = (of_nat (unat (step_delay s) + k * 100) :: 32 word)"
      by simp
    moreover have "unat (step_delay s) + k * 100 < 2 ^ 31" using sd True by simp
    ultimately have "sint (step_delay s + of_nat k * 100) = int (unat (step_delay s) + k * 100)"
      using sint_of_nat_small by metis
    with True lt show ?thesis by (simp add: esti_def)
  next
    case False
    have "unat (step_delay s) < 2 ^ 31" using sd by simp
    with False lt show ?thesis by (simp add: esti_def sint_unat_small)
  qed
qed

text \<open>
  Claim C4, as stated: over the last nine steps the required wait does not decrease as
  the number of steps left goes down to 1. At 5000 microseconds per step the wait is
  5200 with two steps left and 5100 with one step left.
\<close>

theorem esti_not_increasing_counterexample:
  "\<not> esti demo_stepper 2 \<le>s esti demo_stepper 1"
  by (simp add: esti_def demo_stepper_def)

text \<open>
  Claim C4, amended. While fewer than ten steps are left the required wait is the step
  delay plus 100 microseconds for each step left, so over the last nine steps it is
  above the step delay and goes down, by 100 microseconds a step, as the number of steps
  left goes down to 1 (for step delays that leave room for the bonus in an \<^verbatim>\<open>int\<close>).
\<close>

theorem esti_final_steps:
  assumes "unat (step_delay s) < 2 ^ 31 - 900" and "0 < j" and "j \<le> k" and "k < 10"
  shows "sint (esti s (of_nat k)) = int (unat (step_delay s)) + 100 * int k \<and>
         esti s (of_nat j) \<le>s esti s (of_nat k) \<and>
         (j < k \<longrightarrow> esti s (of_nat j) <s esti s (of_nat k)) \<and>
         step_delay s <s esti s (of_nat j)"
proof -
  have "sint (step_delay s) = int (unat (step_delay s))"
    using assms(1) by (simp add: sint_unat_small)
  then show ?thesis
  using assms esti_value [of s k] esti_value [of s j]
  by (simp add: word_sle_eq word_sless_alt)
qed

theorem esti_final_steps_witness:
  "unat (step_delay demo_stepper) < 2 ^ 31 - 900 \<and> (0::nat) < 1 \<and> (1::nat) \<le> 2 \<and> (2::nat) < 10 \<and>
   sint (esti demo_stepper 2) = 5200 \<and> esti demo_stepper 1 <s esti demo_stepper 2"
  using esti_final_steps [of demo_stepper 1 2]
  by (simp add: demo_stepper_def)

text \<open>The test of the loop agrees with the comparison of the elapsed time and the
  required wait as long as the elapsed time is below \<open>2 ^ 31\<close> microseconds.\<close>

lemma due_iff_elapsed:
  assumes sd: "unat (step_delay s) < 2 ^ 31 - 900" and k: "k < 2 ^ 31"
    and el: "unat (now - t0) < 2 ^ 31"
  shows "due s t0 (of_nat k) now \<longleftrightarrow>
         unat (step_delay s) + (if k < 10 then 100 * k else 0) \<le> unat (now - t0)"
proof -
  have "sint (now - t0) = int (unat (now - t0))" using el by (rule sint_unat_small)
  then have "due s t0 (of_nat k) now \<longleftrightarrow>
     int (unat (step_delay s) + (if k < 10 then 100 * k else 0)) \<le> int (unat (now - t0))"
    using esti_value [OF sd k] by (simp only: due_def word_sle_eq)
  then show ?thesis by (simp only: of_nat_le_iff)
qed

text \<open>
  Claim C3 says that the comparison of the elapsed time with the required wait is right
  for every pair of time stamps. The code subtracts the unsigned time stamps and then
  stores the difference in an \<^verbatim>\<open>int\<close>: an elapsed time of \<open>2 ^ 31\<close> microseconds or more
  becomes negative and the step is not taken, although the wait is long over. Here the
  move starts (last step time 0) when the clock reads \<open>2 ^ 31\<close>.
\<close>

theorem due_fails_for_long_elapsed:
  "unat (esti demo_stepper 10) \<le> unat (0x80000000 - 0 :: 32 word) \<and>
   \<not> due demo_stepper 0 10 0x80000000"
  by (simp add: due_def esti_def demo_stepper_def)

section \<open>The phase index\<close>

lemma smod4_range: "- 3 \<le> (k::int) smod 4" "(k::int) smod 4 \<le> 3"
  using smod_int_range [of 4 k] by simp_all

lemma smod4_mod4: "((k::int) smod 4) mod 4 = k mod 4"
  by (simp add: signed_modulo_int_eq_modulo_int)

lemma phase_floor_mod: "phase steps_left direction = word_of_int (sint (steps_left * direction) mod 4)"
proof -
  let ?r = "sint (steps_left * direction) smod 4"
  have r: "- 3 \<le> ?r" "?r \<le> 3" by (rule smod4_range)+
  have "sint (4 + word_of_int ?r :: 32 word) = sint (word_of_int (4 + ?r) :: 32 word)"
    by simp
  also have "\<dots> = 4 + ?r"
    using r by (intro sint_word_of_int_small) simp_all
  finally have s: "sint (4 + word_of_int ?r :: 32 word) = 4 + ?r" .
  have "(4 + ?r) smod 4 = (4 + ?r) mod 4"
    using r by (intro smod_pos) simp_all
  also have "\<dots> = sint (steps_left * direction) mod 4"
    using smod4_mod4 [of "sint (steps_left * direction)"] by (simp add: mod_simps)
  finally show ?thesis
    by (simp add: phase_def int_rem_def s)
qed

lemma sint_phase: "sint (phase steps_left direction) = sint (steps_left * direction) mod 4"
proof -
  have "0 \<le> sint (steps_left * direction) mod 4" "sint (steps_left * direction) mod 4 < 4"
    by simp_all
  then show ?thesis
    unfolding phase_floor_mod by (intro sint_word_of_int_small) simp_all
qed

lemma unat_phase: "unat (phase steps_left direction) < 4"
proof -
  have "0 \<le> sint (phase steps_left direction)" "sint (phase steps_left direction) < 4"
    by (simp_all add: sint_phase)
  then have "uint (phase steps_left direction) < 4"
    using uint_sint_nonneg [of "phase steps_left direction"] by simp
  then have "phase steps_left direction < 4"
    by (simp add: word_less_def)
  then show ?thesis by (simp add: word_less_nat_alt)
qed

lemma phase_forward: "k < 2 ^ 31 \<Longrightarrow> sint (phase (of_nat k) (- 1)) = (- int k) mod 4"
proof -
  assume k: "k < 2 ^ 31"
  have "sint (- (of_nat k :: 32 word)) = sint (word_of_int (- int k) :: 32 word)"
    by simp
  also have "\<dots> = - int k"
    using k by (intro sint_word_of_int_small) simp_all
  finally show ?thesis by (simp add: sint_phase)
qed

lemma phase_backward: "k < 2 ^ 31 \<Longrightarrow> sint (phase (of_nat k) 1) = int k mod 4"
  by (simp add: sint_phase sint_of_nat_small)

lemma phase_zero: "phase 0 d = 0"
  by (simp add: phase_floor_mod)

section \<open>The polling loop\<close>

lemma digitalWrite_frame [simp]:
  "clock (digitalWrite p v b) = clock b" "polls (digitalWrite p v b) = polls b"
  "modes (digitalWrite p v b) = modes b" "emitted (digitalWrite p v b) = emitted b"
  by (simp_all add: digitalWrite_def)

lemma stepMotor_frame [simp]:
  "clock (stepMotor s i b) = clock b" "polls (stepMotor s i b) = polls b"
  "modes (stepMotor s i b) = modes b" "emitted (stepMotor s i b) = emitted b"
  by (simp_all add: stepMotor_def)

lemma resetMotor_frame [simp]:
  "clock (resetMotor s b) = clock b" "polls (resetMotor s b) = polls b"
  "modes (resetMotor s b) = modes b" "emitted (resetMotor s b) = emitted b"
  by (simp_all add: resetMotor_def)

lemma step_loop_due:
  assumes "0 <s sl" and "due s t0 sl (clock b (polls b))"
  shows "step_loop s d t0 sl b =
         step_loop s d (clock b (polls b)) (sl - 1)
           (take_step s d sl (clock b (polls b)) (b\<lparr>polls := Suc (polls b)\<rparr>))"
  using assms by (subst step_loop.simps) (simp add: micros_def take_step_def Let_def)

lemma step_loop_not_due:
  assumes "0 <s sl" and "\<not> due s t0 sl (clock b (polls b))"
  shows "step_loop s d t0 sl b = step_loop s d t0 sl (b\<lparr>polls := Suc (polls b)\<rparr>)"
  using assms by (subst step_loop.simps) (simp add: micros_def)

lemma step_loop_done:
  assumes "\<not> 0 <s sl"
  shows "step_loop s d t0 sl b = Some b"
  using assms by (subst step_loop.simps) simp

lemma step_loop_wait:
  assumes "0 <s sl" and "due s t0 sl (clock b k)" and "polls b \<le> k"
  shows "\<exists>k'\<ge>polls b. due s t0 sl (clock b k') \<and>
           step_loop s d t0 sl b =
           step_loop s d (clock b k') (sl - 1) (take_step s d sl (clock b k') (b\<lparr>polls := Suc k'\<rparr>))"
  using assms
proof (induction "k - polls b" arbitrary: b)
  case 0
  then have "k = polls b" by simp
  with 0 step_loop_due [of sl s t0 b d] show ?case by auto
next
  case (Suc m)
  show ?case
  proof (cases "due s t0 sl (clock b (polls b))")
    case True
    with Suc.prems step_loop_due [of sl s t0 b d] show ?thesis by auto
  next
    case False
    let ?b1 = "b\<lparr>polls := Suc (polls b)\<rparr>"
    have "m = k - polls ?b1" "due s t0 sl (clock ?b1 k)" "polls ?b1 \<le> k"
      using Suc.hyps(2) Suc.prems by simp_all
    from Suc.hyps(1) [OF this(1) Suc.prems(1) this(2,3)]
    obtain k' where "k' \<ge> polls ?b1" "due s t0 sl (clock ?b1 k')"
      "step_loop s d t0 sl ?b1 =
       step_loop s d (clock ?b1 k') (sl - 1) (take_step s d sl (clock ?b1 k') (?b1\<lparr>polls := Suc k'\<rparr>))"
      by blast
    with False Suc.prems(1) step_loop_not_due [of sl s t0 b d] show ?thesis
      by (intro exI [of _ k']) simp
  qed
qed

lemma take_step_frame [simp]:
  "clock (take_step s d sl now b) = clock b"
  "modes (take_step s d sl now b) = modes b"
  "emitted (take_step s d sl now b) = emitted b @ [(now, phase (sl - 1) d)]"
  by (simp_all add: take_step_def Let_def)

lemma step_loop_runs:
  assumes live: "clock_live s (clock b)" and n: "n < 2 ^ 31"
  shows "\<exists>b'. step_loop s d t0 (of_nat n) b = Some b' \<and> clock b' = clock b \<and>
           modes b' = modes b \<and>
           (\<exists>es. emitted b' = emitted b @ es \<and> steps_ok s d t0 n es)"
  using assms
proof (induction n arbitrary: t0 b)
  case 0
  then show ?case by (simp add: step_loop_done)
next
  case (Suc n)
  let ?sl = "of_nat (Suc n) :: 32 word"
  have pos: "0 <s ?sl"
    using Suc.prems(2) sint_of_nat_small [of "Suc n"] by (simp add: word_sless_alt)
  obtain k where k: "polls b \<le> k" "due s t0 ?sl (clock b k)"
    using Suc.prems(1) pos unfolding clock_live_def by blast
  obtain k' where k': "due s t0 ?sl (clock b k')"
     "step_loop s d t0 ?sl b =
      step_loop s d (clock b k') (?sl - 1) (take_step s d ?sl (clock b k') (b\<lparr>polls := Suc k'\<rparr>))"
    using step_loop_wait [OF pos k(2) k(1), of d] by blast
  let ?b2 = "take_step s d ?sl (clock b k') (b\<lparr>polls := Suc k'\<rparr>)"
  have "clock_live s (clock ?b2)" "n < 2 ^ 31"
    using Suc.prems by simp_all
  from Suc.IH [OF this, of "clock b k'"]
  obtain b' es where b': "step_loop s d (clock b k') (of_nat n) ?b2 = Some b'"
    "clock b' = clock ?b2" "modes b' = modes ?b2" "emitted b' = emitted ?b2 @ es"
    "steps_ok s d (clock b k') n es"
    by blast
  have sl1: "?sl - 1 = of_nat n" by simp
  have "step_loop s d t0 ?sl b = Some b'"
    using k'(2) b'(1) by (simp only: sl1)
  moreover have "emitted b' = emitted b @ ((clock b k', phase (of_nat n) d) # es)"
    using b'(4) by (simp only: take_step_frame sl1) simp
  moreover have "steps_ok s d t0 (Suc n) ((clock b k', phase (of_nat n) d) # es)"
    using k'(1) b'(5) by simp
  ultimately show ?case using b'(2,3) by (intro exI [of _ b']) auto
qed

lemma steps_ok_length: "steps_ok s d t0 n es \<Longrightarrow> length es = n"
  by (induction es arbitrary: t0 n) auto

lemma steps_ok_index:
  "steps_ok s d t0 n es \<Longrightarrow> j < n \<Longrightarrow> snd (es ! j) = phase (of_nat (n - 1 - j)) d"
proof (induction es arbitrary: t0 n j)
  case Nil
  then show ?case by simp
next
  case (Cons e es)
  obtain now i where e: "e = (now, i)" by (cases e)
  show ?case
  proof (cases j)
    case 0
    with Cons.prems e show ?thesis by simp
  next
    case (Suc j')
    with Cons.prems e Cons.IH [of now "n - 1" j'] show ?thesis by simp
  qed
qed

lemma steps_ok_due:
  "steps_ok s d t0 n es \<Longrightarrow> j < n \<Longrightarrow>
   due s (if j = 0 then t0 else fst (es ! (j - 1))) (of_nat (n - j)) (fst (es ! j))"
proof (induction es arbitrary: t0 n j)
  case Nil
  then show ?case by simp
next
  case (Cons e es)
  obtain now i where e: "e = (now, i)" by (cases e)
  show ?case
  proof (cases j)
    case 0
    with Cons.prems e show ?thesis by simp
  next
    case (Suc j')
    with Cons.prems e Cons.IH [of now "n - 1" j'] show ?thesis
      by (cases j') simp_all
  qed
qed

lemma step_loop_emitted_in_range:
  assumes "step_loop s d t0 sl b = Some b'"
  shows "\<exists>es. emitted b' = emitted b @ es \<and> (\<forall>e\<in>set es. unat (snd e) < 4)"
proof (rule step_loop.raw_induct [where P = "\<lambda>s d t0 sl b b'.
         \<exists>es. emitted b' = emitted b @ es \<and> (\<forall>e\<in>set es. unat (snd e) < 4)", OF _ assms],
       goal_cases)
  case (1 f s d t0 sl b b')
  show ?case
  proof (cases "0 <s sl")
    case False
    with 1(2) show ?thesis by simp
  next
    case pos: True
    show ?thesis
    proof (cases "due s t0 sl (clock b (polls b))")
      case True
      with pos 1(2) have "f s d (clock b (polls b)) (sl - 1)
           (take_step s d sl (clock b (polls b)) (b\<lparr>polls := Suc (polls b)\<rparr>)) = Some b'"
        by (simp add: micros_def take_step_def Let_def)
      from 1(1) [OF this] obtain es where
        "emitted b' = emitted b @ (clock b (polls b), phase (sl - 1) d) # es"
        "\<forall>e\<in>set es. unat (snd e) < 4"
        by auto
      then show ?thesis
        using unat_phase [of "sl - 1" d]
        by (intro exI [of _ "(clock b (polls b), phase (sl - 1) d) # es"]) simp
    next
      case False
      with pos 1(2) have "f s d t0 sl (b\<lparr>polls := Suc (polls b)\<rparr>) = Some b'"
        by (simp add: micros_def)
      from 1(1) [OF this] show ?thesis by simp
    qed
  qed
qed

lemma step_loop_total:
  assumes live: "clock_live s (clock b)"
  shows "\<exists>b'. step_loop s d t0 sl b = Some b'"
proof (cases "0 <s sl")
  case False
  then show ?thesis by (simp add: step_loop_done)
next
  case True
  obtain n where n_def: "n = nat (sint sl)" by simp
  have p: "0 < sint sl" using True by (simp add: word_sless_alt)
  have n: "n < 2 ^ 31" using sint_bounds32(2) [of sl] p by (simp add: n_def)
  have "sl = word_of_int (sint sl)" by simp
  also have "sint sl = int n" using p by (simp add: n_def)
  finally have sl: "sl = of_nat n" by (simp only: of_int_of_nat_eq)
  show ?thesis using step_loop_runs [OF live n, of d t0] by (auto simp only: sl)
qed

section \<open>Clocks that let the loop end\<close>

lemma esti_range:
  assumes sd: "unat (step_delay s) < 2 ^ 31 - 900" and pos: "0 <s sl"
  shows "0 \<le> sint (esti s sl)" and "sint (esti s sl) \<le> int (unat (step_delay s)) + 900"
proof -
  obtain n where n_def: "n = nat (sint sl)" by simp
  have p: "0 < sint sl" using pos by (simp add: word_sless_alt)
  have n: "n < 2 ^ 31" using sint_bounds32(2) [of sl] p by (simp add: n_def)
  have "sl = word_of_int (sint sl)" by simp
  also have "sint sl = int n" using p by (simp add: n_def)
  finally have sl: "sl = of_nat n" by (simp only: of_int_of_nat_eq)
  have v: "sint (esti s sl) = int (unat (step_delay s) + (if n < 10 then 100 * n else 0))"
    using esti_value [OF sd n] by (simp only: sl [symmetric])
  show "0 \<le> sint (esti s sl)" by (simp only: v of_nat_0_le_iff)
  have "(if n < 10 then 100 * n else 0) \<le> 900" by simp
  then have "int (unat (step_delay s) + (if n < 10 then 100 * n else 0)) \<le>
             int (unat (step_delay s) + 900)"
    by (simp only: of_nat_le_iff add_le_cancel_left)
  then show "sint (esti s sl) \<le> int (unat (step_delay s)) + 900"
    by (simp only: v of_nat_add of_nat_numeral)
qed

lemma steady_clock_live:
  assumes sd: "unat (step_delay s) < 2 ^ 31 - 900"
    and tick: "\<forall>k. 0 < unat (c (Suc k) - c k) \<and>
                 unat (c (Suc k) - c k) + unat (step_delay s) + 900 \<le> 2 ^ 31"
  shows "clock_live s c"
  unfolding clock_live_def
proof (intro allI impI)
  fix k and t0 sl :: "32 word"
  assume pos: "0 <s sl"
  let ?E = "esti s sl"
  have E: "0 \<le> sint ?E" "sint ?E \<le> int (unat (step_delay s)) + 900"
    using esti_range [OF sd pos] by simp_all
  have "\<exists>k'\<ge>k. ?E \<le>s c k' - t0" if "m = unat (?E - (c k - t0))" for m
    using that
  proof (induction m arbitrary: k rule: less_induct)
    case (less m)
    let ?e = "c k - t0"
    let ?d = "c (Suc k) - c k"
    have d: "0 < unat ?d" "unat ?d + unat (step_delay s) + 900 \<le> 2 ^ 31"
      using tick by simp_all
    have e': "c (Suc k) - t0 = ?e + ?d" by simp
    show ?case
    proof (cases "m = 0")
      case True
      with less.prems have "?E - ?e = 0" by (simp add: unat_eq_0)
      then have "?E = ?e" by simp
      then have "?E \<le>s c k - t0" by (simp add: word_sle_eq)
      then show ?thesis by blast
    next
      case False
      show ?thesis
      proof (cases "unat ?d \<le> m")
        case True
        then have le: "?d \<le> ?E - ?e"
          using less.prems by (simp add: word_le_nat_alt)
        have eq: "?E - (c (Suc k) - t0) = (?E - ?e) - ?d" by simp
        have "unat (?E - (c (Suc k) - t0)) = unat ((?E - ?e) - ?d)"
          by (simp only: eq)
        also have "\<dots> = unat (?E - ?e) - unat ?d" by (rule unat_sub [OF le])
        finally have m': "unat (?E - (c (Suc k) - t0)) = m - unat ?d"
          by (simp only: less.prems)
        have lt: "m - unat ?d < m" using d(1) \<open>m \<noteq> 0\<close> by linarith
        have "\<exists>k'\<ge>Suc k. ?E \<le>s c k' - t0"
          by (rule less.IH [OF lt]) (rule m' [symmetric])
        then obtain k' where "Suc k \<le> k'" "?E \<le>s c k' - t0" by blast
        then show ?thesis by (intro exI [of _ k']) simp
      next
        case far: False
        let ?x = "?d - (?E - ?e)"
        have le: "?E - ?e \<le> ?d"
          using far less.prems by (simp add: word_le_nat_alt)
        have x: "unat ?x = unat ?d - m"
          by (simp only: unat_sub [OF le] less.prems)
        obtain xn where xn: "xn = unat ?x" by simp
        obtain Ei where Ei: "Ei = sint ?E" by simp
        have xn_lt: "xn < unat ?d" using x far \<open>m \<noteq> 0\<close> by (simp only: xn)
        have Ew: "?E = word_of_int Ei" by (simp add: Ei)
        have xw: "?x = word_of_int (int xn)" by (simp add: xn)
        have "c (Suc k) - t0 = ?E + ?x" by simp
        also have "\<dots> = word_of_int Ei + word_of_int (int xn)"
          by (simp only: Ew [symmetric] xw [symmetric])
        also have "\<dots> = word_of_int (Ei + int xn)" by simp
        finally have cw: "c (Suc k) - t0 = word_of_int (Ei + int xn)" .
        have "sint (word_of_int (Ei + int xn) :: 32 word) = Ei + int xn"
        proof (rule sint_word_of_int_small)
          show "- (2 ^ 31) \<le> Ei + int xn" using E(1) by (simp add: Ei [symmetric])
          have "int (unat ?d + unat (step_delay s) + 900) \<le> int (2 ^ 31)"
            using d(2) by (rule iffD2 [OF of_nat_le_iff])
          moreover have "int xn < int (unat ?d)"
            using xn_lt by (rule iffD2 [OF of_nat_less_iff])
          ultimately show "Ei + int xn < 2 ^ 31" using E(2) by (simp add: Ei [symmetric])
        qed
        then have "sint (c (Suc k) - t0) = Ei + int xn" by (simp only: cw)
        then have "sint ?E \<le> sint (c (Suc k) - t0)" by (simp add: Ei)
        then have "?E \<le>s c (Suc k) - t0" by (simp only: word_sle_eq)
        then show ?thesis by (intro exI [of _ "Suc k"]) simp
      qed
    qed
  qed
  then show "\<exists>k'\<ge>k. due s t0 sl (c k')" by (simp add: due_def)
qed

lemma demo_clock_live: "clock_live demo_stepper (clock demo_board)"
proof (rule steady_clock_live)
  show "unat (step_delay demo_stepper) < 2 ^ 31 - 900"
    by (simp add: demo_stepper_def)
  have tick: "clock demo_board (Suc k) - clock demo_board k = 1000" for k
    by (simp add: demo_board_def algebra_simps)
  show "\<forall>k. 0 < unat (clock demo_board (Suc k) - clock demo_board k) \<and>
     unat (clock demo_board (Suc k) - clock demo_board k) + unat (step_delay demo_stepper) + 900
       \<le> 2 ^ 31"
    unfolding tick by (simp add: demo_stepper_def)
qed

section \<open>The locals of a move\<close>

lemma int_min_iff: "(x :: 32 word) = 0x80000000 \<longleftrightarrow> sint x = - (2 ^ 31)"
proof
  assume "x = 0x80000000" then show "sint x = - (2 ^ 31)" by simp
next
  assume "sint x = - (2 ^ 31)"
  then have "word_of_int (sint x) = (word_of_int (- (2 ^ 31)) :: 32 word)" by simp
  then show "x = 0x80000000" by simp
qed

lemma sdiv_self: "(a::int) \<noteq> 0 \<Longrightarrow> a sdiv a = 1"
  by (simp add: signed_divide_int_def sgn_mult_self_eq)

lemma sint_neg:
  assumes "(x :: 32 word) \<noteq> 0x80000000" shows "sint (- x) = - sint x"
proof -
  have "- (2 ^ 31) < sint x" using assms sint_bounds32(1) [of x] by (simp add: int_min_iff)
  then have "- (2 ^ 31) \<le> - sint x" "- sint x < 2 ^ 31"
    using sint_bounds32 [of x] by simp_all
  then have "signed_take_bit 31 (- sint x) = - sint x"
    by (simp add: signed_take_bit_int_eq_self)
  then show ?thesis by (simp add: sint_word_minus)
qed

lemma step_locals:
  assumes "x \<noteq> 0" and "x \<noteq> 0x80000000"
  shows "int_abs x = of_nat (nat \<bar>sint x\<bar>)" and "nat \<bar>sint x\<bar> < 2 ^ 31" and "0 < nat \<bar>sint x\<bar>"
    and "int_div (int_abs x) (- x) = (if 0 <s x then - 1 else 1)"
proof -
  have nz: "sint x \<noteq> 0" using assms(1) by (simp add: signed_eq_0_iff)
  have lo: "- (2 ^ 31) < sint x" using assms(2) sint_bounds32(1) [of x] by (simp add: int_min_iff)
  show "nat \<bar>sint x\<bar> < 2 ^ 31" using lo sint_bounds32(2) [of x] by simp
  show "0 < nat \<bar>sint x\<bar>" using nz by simp
  have x: "x = word_of_int (sint x)" by simp
  show "int_abs x = of_nat (nat \<bar>sint x\<bar>)"
  proof (cases "sint x < 0")
    case True
    then have "int_abs x = - x" by (simp add: int_abs_def word_sless_alt)
    also have "\<dots> = word_of_int (- sint x)" by simp
    also have "- sint x = int (nat \<bar>sint x\<bar>)" using True by simp
    finally show ?thesis by (simp only: of_int_of_nat_eq)
  next
    case False
    then have "int_abs x = x" by (simp add: int_abs_def word_sless_alt)
    also have "\<dots> = word_of_int (sint x)" by simp
    also have "sint x = int (nat \<bar>sint x\<bar>)" using False by simp
    finally show ?thesis by (simp only: of_int_of_nat_eq)
  qed
  show "int_div (int_abs x) (- x) = (if 0 <s x then - 1 else 1)"
  proof (cases "sint x < 0")
    case True
    then have "int_abs x = - x" by (simp add: int_abs_def word_sless_alt)
    moreover have "sint (- x) sdiv sint (- x) = 1"
      using nz by (intro sdiv_self) (simp add: sint_neg [OF assms(2)])
    ultimately show ?thesis using True by (simp add: int_div_def word_sless_alt)
  next
    case False
    then have "int_abs x = x" by (simp add: int_abs_def word_sless_alt)
    moreover have "sint x sdiv sint (- x) = - 1"
      using nz by (simp add: sint_neg [OF assms(2)] sdiv_self)
    ultimately show ?thesis using False nz by (simp add: int_div_def word_sless_alt)
  qed
qed

lemma positive_count:
  fixes n :: "32 word"
  assumes "0 <s n"
  shows "n \<noteq> 0" "n \<noteq> 0x80000000" "- n \<noteq> 0" "- n \<noteq> 0x80000000" "\<not> 0 <s - n"
    "nat \<bar>sint n\<bar> = unat n" "nat \<bar>sint (- n)\<bar> = unat n"
proof -
  have p: "0 < sint n" using assms by (simp add: word_sless_alt)
  show n0: "n \<noteq> 0" using p by auto
  show nm: "n \<noteq> 0x80000000"
  proof
    assume "n = 0x80000000"
    then have "sint n = - (2 ^ 31)" by (rule iffD1 [OF int_min_iff])
    with p show False by simp
  qed
  have neg: "sint (- n) = - sint n" using nm by (rule sint_neg)
  show "- n \<noteq> 0" using n0 by simp
  show "- n \<noteq> 0x80000000"
  proof
    assume "- n = 0x80000000"
    then have "sint (- n) = - (2 ^ 31)" by (rule iffD1 [OF int_min_iff])
    with neg sint_bounds32(2) [of n] show False by simp
  qed
  show "\<not> 0 <s - n" using neg p by (simp add: word_sless_alt)
  have "sint n = int (unat n)" using p by (intro sint_nonneg_unat) simp
  with p show "nat \<bar>sint n\<bar> = unat n" by simp
  with neg show "nat \<bar>sint (- n)\<bar> = unat n" by simp
qed

lemma step_runs:
  assumes "x \<noteq> 0" and "x \<noteq> 0x80000000" and live: "clock_live s (clock b)"
  shows "\<exists>b1 es. step x s b = Some (s, resetMotor s b1) \<and> emitted b1 = emitted b @ es \<and>
           steps_ok s (if 0 <s x then - 1 else 1) 0 (nat \<bar>sint x\<bar>) es"
proof -
  note loc = step_locals [OF assms(1,2)]
  obtain b1 es where "step_loop s (if 0 <s x then - 1 else 1) 0 (of_nat (nat \<bar>sint x\<bar>)) b = Some b1"
    "emitted b1 = emitted b @ es" "steps_ok s (if 0 <s x then - 1 else 1) 0 (nat \<bar>sint x\<bar>) es"
    using step_loop_runs [OF live loc(2), of "if 0 <s x then - 1 else 1" 0] by blast
  moreover from this(1) have "step x s b = Some (s, resetMotor s b1)"
    unfolding step_def Let_def
    by (simp only: loc(1) loc(4) [unfolded loc(1)] assms(1) if_True not_False_eq_True option.case)
  ultimately show ?thesis by blast
qed

lemma resetMotor_pins:
  "i < 4 \<Longrightarrow> pins (resetMotor s b) (motor_pin s ! i) = False"
proof -
  assume "i < 4"
  then have "i = 0 \<or> i = 1 \<or> i = 2 \<or> i = 3" by linarith
  then show ?thesis
    by (auto simp add: resetMotor_def digitalWrite_def)
qed

lemma resetMotor_writes:
  "writes (resetMotor s b) = writes b @ map (\<lambda>i. (motor_pin s ! i, False)) [0, 1, 2, 3]"
  by (simp add: resetMotor_def digitalWrite_def)

lemma due_elapsed:
  assumes sd: "unat (step_delay s) < 2 ^ 31 - 900" and k: "k < 2 ^ 31"
    and due: "due s t0 (of_nat k) now"
  shows "unat (step_delay s) + (if k < 10 then 100 * k else 0) \<le> unat (now - t0)"
proof -
  let ?e = "unat (step_delay s) + (if k < 10 then 100 * k else 0)"
  have "int ?e \<le> sint (now - t0)"
    using due esti_value [OF sd k] by (simp add: due_def word_sle_eq)
  moreover from this have "0 \<le> sint (now - t0)" by linarith
  then have "sint (now - t0) = int (unat (now - t0))" by (rule sint_nonneg_unat)
  ultimately have "int ?e \<le> int (unat (now - t0))" by simp
  then show ?thesis by (simp only: of_nat_le_iff)
qed

section \<open>Moving\<close>

text \<open>
  Claim C9. \<^verbatim>\<open>step(0)\<close> returns at once: the driver object and the board (pin levels,
  the log of pin writes, the clock reads) are as they were.
\<close>

theorem step_zero: "step 0 s b = Some (s, b)"
  by (simp add: step_def)

text \<open>
  Claim C1. For every nonzero \<^verbatim>\<open>steps_to_move\<close> the move returns after exactly
  \<open>\<bar>steps_to_move\<bar>\<close> calls of \<^verbatim>\<open>stepMotor\<close>, and every call after the first is made at a
  clock value that lies at least the required wait after the clock value of the call
  before it: the step delay, plus 100 microseconds for each step left while fewer than
  ten are left. The elapsed time is the wrap-around difference of the two clock values.
  The move is one whose count has an absolute value (\<^verbatim>\<open>abs(INT_MIN)\<close> is undefined in C),
  the step delay is one that \<^verbatim>\<open>setSpeed\<close> can have stored (it leaves room for the bonus in
  an \<^verbatim>\<open>int\<close>), and the clock lets the loop end.
\<close>

theorem step_emits_every_step_in_time:
  assumes "steps_to_move \<noteq> 0" and "steps_to_move \<noteq> 0x80000000"
    and "unat (step_delay s) < 2 ^ 31 - 900"
    and "clock_live s (clock b)"
  shows "\<exists>b' es. step steps_to_move s b = Some (s, b') \<and> emitted b' = emitted b @ es \<and>
           length es = nat \<bar>sint steps_to_move\<bar> \<and>
           (\<forall>j. 0 < j \<and> j < length es \<longrightarrow>
              unat (step_delay s) + (if length es - j < 10 then 100 * (length es - j) else 0)
                \<le> unat (fst (es ! j) - fst (es ! (j - 1))))"
proof -
  let ?n = "nat \<bar>sint steps_to_move\<bar>"
  let ?d = "if 0 <s steps_to_move then - 1 else 1 :: 32 word"
  obtain b1 es where r: "step steps_to_move s b = Some (s, resetMotor s b1)"
    "emitted b1 = emitted b @ es" "steps_ok s ?d 0 ?n es"
    using step_runs [OF assms(1,2,4)] by blast
  have len: "length es = ?n" using r(3) by (rule steps_ok_length)
  have n: "?n < 2 ^ 31" using step_locals(2) [OF assms(1,2)] .
  have "unat (step_delay s) + (if ?n - j < 10 then 100 * (?n - j) else 0)
          \<le> unat (fst (es ! j) - fst (es ! (j - 1)))" if j: "0 < j" "j < ?n" for j
  proof -
    have "due s (fst (es ! (j - 1))) (of_nat (?n - j)) (fst (es ! j))"
      using steps_ok_due [OF r(3) j(2)] j(1) by simp
    moreover have "?n - j < 2 ^ 31" using n by simp
    ultimately show ?thesis using due_elapsed [OF assms(3)] by blast
  qed
  then have "\<forall>j. 0 < j \<and> j < length es \<longrightarrow>
              unat (step_delay s) + (if length es - j < 10 then 100 * (length es - j) else 0)
                \<le> unat (fst (es ! j) - fst (es ! (j - 1)))"
    unfolding len by blast
  moreover have "emitted (resetMotor s b1) = emitted b @ es" using r(2) by simp
  ultimately show ?thesis using r(1) len by blast
qed

theorem step_emits_every_step_in_time_witness:
  "(2 :: 32 word) \<noteq> 0 \<and> (2 :: 32 word) \<noteq> 0x80000000 \<and>
   unat (step_delay demo_stepper) < 2 ^ 31 - 900 \<and> clock_live demo_stepper (clock demo_board) \<and>
   (\<exists>b' es. step 2 demo_stepper demo_board = Some (demo_stepper, b') \<and>
      emitted b' = emitted demo_board @ es \<and> length es = 2 \<and>
      5100 \<le> unat (fst (es ! 1) - fst (es ! 0)))"
proof -
  have h: "(2 :: 32 word) \<noteq> 0" "(2 :: 32 word) \<noteq> 0x80000000"
    "unat (step_delay demo_stepper) < 2 ^ 31 - 900"
    by (simp_all add: demo_stepper_def)
  obtain b' es where r: "step 2 demo_stepper demo_board = Some (demo_stepper, b')"
    "emitted b' = emitted demo_board @ es" "length es = nat \<bar>sint (2 :: 32 word)\<bar>"
    "\<forall>j. 0 < j \<and> j < length es \<longrightarrow>
        unat (step_delay demo_stepper) + (if length es - j < 10 then 100 * (length es - j) else 0)
          \<le> unat (fst (es ! j) - fst (es ! (j - 1)))"
    using step_emits_every_step_in_time [OF h demo_clock_live] by blast
  have len: "length es = 2" using r(3) by simp
  have "5100 \<le> unat (fst (es ! 1) - fst (es ! 0))"
    using r(4) [rule_format, of 1] by (simp add: len demo_stepper_def)
  with r(1,2) len h demo_clock_live show ?thesis by blast
qed

text \<open>
  Claim C5. The argument \<^verbatim>\<open>(4 + (steps_left * direction) % 4) % 4\<close> of \<^verbatim>\<open>stepMotor\<close> is
  below 4 and never negative for all values of its operands: it is the floor modulo of
  the product by 4, although \<^verbatim>\<open>%\<close> truncates. So every call of \<^verbatim>\<open>stepMotor\<close> that a
  move makes, whatever \<^verbatim>\<open>steps_to_move\<close> is, has an argument in \<open>[0, 4)\<close>.
\<close>

theorem phase_index_in_table:
  "unat (phase steps_left direction) < 4 \<and>
   sint (phase steps_left direction) = sint (steps_left * direction) mod 4 \<and>
   (step steps_to_move s b = Some (s', b') \<longrightarrow>
      (\<exists>es. emitted b' = emitted b @ es \<and> (\<forall>e\<in>set es. unat (snd e) < 4)))"
proof (intro conjI impI)
  show "unat (phase steps_left direction) < 4" by (rule unat_phase)
  show "sint (phase steps_left direction) = sint (steps_left * direction) mod 4"
    by (rule sint_phase)
next
  assume r: "step steps_to_move s b = Some (s', b')"
  show "\<exists>es. emitted b' = emitted b @ es \<and> (\<forall>e\<in>set es. unat (snd e) < 4)"
  proof (cases "steps_to_move = 0")
    case True
    with r show ?thesis by (simp add: step_def)
  next
    case False
    with r obtain b1 where b1:
      "step_loop s (int_div (int_abs steps_to_move) (- steps_to_move)) 0 (int_abs steps_to_move) b
         = Some b1" "b' = resetMotor s b1"
      by (auto simp add: step_def Let_def split: option.splits)
    from step_loop_emitted_in_range [OF b1(1)] b1(2) show ?thesis by simp
  qed
qed

theorem phase_index_in_table_witness:
  "\<exists>b'. step 2 demo_stepper demo_board = Some (demo_stepper, b') \<and>
      map snd (emitted b') = [3, 0] \<and>
      unat (snd (emitted b' ! 0)) < 4 \<and> unat (snd (emitted b' ! 1)) < 4"
proof -
  have run: "map_option (\<lambda>(s, b). (s, emitted b)) (step 2 demo_stepper demo_board) =
             Some (demo_stepper, [(6000, 3), (12000, 0)])"
    by code_simp
  then obtain b' where r: "step 2 demo_stepper demo_board = Some (demo_stepper, b')"
    and e: "emitted b' = [(6000, 3), (12000, 0)]"
    by auto
  have "\<exists>es. emitted b' = emitted demo_board @ es \<and> (\<forall>e\<in>set es. unat (snd e) < 4)"
    using phase_index_in_table [of 0 0 2 demo_stepper demo_board demo_stepper b'] r by blast
  then have "\<forall>e\<in>set (emitted b'). unat (snd e) < 4"
    by (auto simp add: demo_board_def)
  then have "unat (snd (emitted b' ! 0)) < 4 \<and> unat (snd (emitted b' ! 1)) < 4"
    by (simp add: e)
  with r e show ?thesis by simp
qed

text \<open>
  Claim C6. A move with nonzero \<^verbatim>\<open>steps_to_move\<close> ends with four pin writes that set the
  four motor pins low, so all motor pins are low when it returns.
\<close>

theorem step_leaves_pins_low:
  assumes "steps_to_move \<noteq> 0" and "clock_live s (clock b)"
  shows "\<exists>b'. step steps_to_move s b = Some (s, b') \<and>
           (\<forall>i<4. pins b' (motor_pin s ! i) = False) \<and>
           (\<exists>ws. writes b' = ws @ [(motor_pin s ! 0, False), (motor_pin s ! 1, False),
                                    (motor_pin s ! 2, False), (motor_pin s ! 3, False)])"
proof -
  obtain b1 where b1:
    "step_loop s (int_div (int_abs steps_to_move) (- steps_to_move)) 0 (int_abs steps_to_move) b
       = Some b1"
    using step_loop_total [OF assms(2)] by blast
  then have "step steps_to_move s b = Some (s, resetMotor s b1)"
    using assms(1) by (simp add: step_def Let_def)
  moreover have "\<forall>i<4. pins (resetMotor s b1) (motor_pin s ! i) = False"
    by (simp add: resetMotor_pins)
  moreover have "writes (resetMotor s b1) =
       writes b1 @ [(motor_pin s ! 0, False), (motor_pin s ! 1, False),
                    (motor_pin s ! 2, False), (motor_pin s ! 3, False)]"
    by (simp add: resetMotor_writes)
  ultimately show ?thesis by blast
qed

theorem step_leaves_pins_low_witness:
  "(- 3 :: 32 word) \<noteq> 0 \<and> clock_live demo_stepper (clock demo_board) \<and>
   (\<exists>b'. step (- 3) demo_stepper demo_board = Some (demo_stepper, b') \<and>
      \<not> pins b' 8 \<and> \<not> pins b' 9 \<and> \<not> pins b' 10 \<and> \<not> pins b' 11)"
proof -
  have h: "(- 3 :: 32 word) \<noteq> 0" by simp
  obtain b' where r: "step (- 3) demo_stepper demo_board = Some (demo_stepper, b')"
    "\<forall>i<4. pins b' (motor_pin demo_stepper ! i) = False"
    using step_leaves_pins_low [OF h demo_clock_live] by blast
  have "\<not> pins b' 8" "\<not> pins b' 9" "\<not> pins b' 10" "\<not> pins b' 11"
    using r(2) [rule_format, of 0] r(2) [rule_format, of 1] r(2) [rule_format, of 2]
      r(2) [rule_format, of 3]
    by (simp_all add: demo_stepper_def)
  with r(1) h demo_clock_live show ?thesis by blast
qed

text \<open>
  Claim C8. For \<open>N > 0\<close> the moves \<^verbatim>\<open>step(N)\<close> and \<^verbatim>\<open>step(-N)\<close> both make \<open>N\<close> calls of
  \<^verbatim>\<open>stepMotor\<close> and end at the same phase index. From one call to the next the index goes
  up by one modulo 4 in the first move and down by one modulo 4 in the second, and at
  every position the index of one move is the negative, modulo 4, of the index of the
  other: the two moves walk the same chain of adjacent indices in opposite directions.
\<close>

theorem step_directions_mirror:
  assumes "0 <s n" and "clock_live s (clock b1)" and "clock_live s (clock b2)"
  shows "\<exists>b1' b2' fs rs.
           step n s b1 = Some (s, b1') \<and> step (- n) s b2 = Some (s, b2') \<and>
           emitted b1' = emitted b1 @ fs \<and> emitted b2' = emitted b2 @ rs \<and>
           length fs = unat n \<and> length rs = unat n \<and>
           snd (last fs) = snd (last rs) \<and>
           (\<forall>j. Suc j < unat n \<longrightarrow>
              sint (snd (fs ! Suc j)) = (sint (snd (fs ! j)) + 1) mod 4 \<and>
              sint (snd (rs ! Suc j)) = (sint (snd (rs ! j)) - 1) mod 4) \<and>
           (\<forall>j<unat n. sint (snd (fs ! j)) = (- sint (snd (rs ! j))) mod 4)"
proof -
  note pc = positive_count [OF assms(1)]
  obtain N where N: "N = unat n" by simp
  obtain c1 fs where f: "step n s b1 = Some (s, resetMotor s c1)"
    "emitted c1 = emitted b1 @ fs" "steps_ok s (- 1) 0 N fs"
    using step_runs [OF pc(1,2) assms(2)] assms(1) by (auto simp add: pc(6) N)
  obtain c2 rs where r: "step (- n) s b2 = Some (s, resetMotor s c2)"
    "emitted c2 = emitted b2 @ rs" "steps_ok s 1 0 N rs"
    using step_runs [OF pc(3,4) assms(3)] pc(5) by (auto simp add: pc(7) N)
  have Nb: "N < 2 ^ 31" using step_locals(2) [OF pc(1,2)] by (simp only: pc(6) N)
  have Np: "0 < N" using step_locals(3) [OF pc(1,2)] by (simp only: pc(6) N)
  have lf: "length fs = N" using f(3) by (rule steps_ok_length)
  have lr: "length rs = N" using r(3) by (rule steps_ok_length)
  have fi: "sint (snd (fs ! j)) = (- int (N - 1 - j)) mod 4" if "j < N" for j
    using steps_ok_index [OF f(3) that] phase_forward [of "N - 1 - j"] Nb by simp
  have ri: "sint (snd (rs ! j)) = int (N - 1 - j) mod 4" if "j < N" for j
    using steps_ok_index [OF r(3) that] phase_backward [of "N - 1 - j"] Nb by simp
  have "snd (fs ! (N - 1)) = phase 0 (- 1)" "snd (rs ! (N - 1)) = phase 0 1"
    using steps_ok_index [OF f(3), of "N - 1"] steps_ok_index [OF r(3), of "N - 1"] Np
    by simp_all
  moreover have "fs \<noteq> []" "rs \<noteq> []" using lf lr Np by auto
  ultimately have lst: "snd (last fs) = snd (last rs)"
    using lf lr by (simp add: last_conv_nth phase_zero)
  have adj: "sint (snd (fs ! Suc j)) = (sint (snd (fs ! j)) + 1) mod 4 \<and>
             sint (snd (rs ! Suc j)) = (sint (snd (rs ! j)) - 1) mod 4" if j: "Suc j < N" for j
  proof -
    obtain k where k: "N - 1 - Suc j = k" "N - 1 - j = Suc k"
      using j by (metis Suc_diff_Suc diff_Suc_eq_diff_pred diff_diff_left plus_1_eq_Suc)
    have j': "j < N" using j by simp
    have "(- int k) mod 4 = ((- int (Suc k)) mod 4 + 1) mod 4"
      by (simp add: mod_simps)
    moreover have "int k mod 4 = (int (Suc k) mod 4 - 1) mod 4"
      by (simp add: mod_simps)
    ultimately show ?thesis
      using fi [OF j] fi [OF j'] ri [OF j] ri [OF j'] by (simp only: k)
  qed
  have mir: "sint (snd (fs ! j)) = (- sint (snd (rs ! j))) mod 4" if "j < N" for j
    using fi [OF that] ri [OF that] by (simp add: mod_simps)
  have "emitted (resetMotor s c1) = emitted b1 @ fs" "emitted (resetMotor s c2) = emitted b2 @ rs"
    using f(2) r(2) by simp_all
  with f(1) r(1) lf lr lst adj mir show ?thesis
    unfolding N [symmetric] by blast
qed

theorem step_directions_mirror_witness:
  "(0 :: 32 word) <s 5 \<and> clock_live demo_stepper (clock demo_board) \<and>
   (\<exists>b1' b2' fs rs.
      step 5 demo_stepper demo_board = Some (demo_stepper, b1') \<and>
      step (- 5) demo_stepper demo_board = Some (demo_stepper, b2') \<and>
      emitted b1' = emitted demo_board @ fs \<and> emitted b2' = emitted demo_board @ rs \<and>
      length fs = 5 \<and> length rs = 5 \<and> snd (last fs) = snd (last rs) \<and>
      sint (snd (fs ! 1)) = (sint (snd (fs ! 0)) + 1) mod 4 \<and>
      sint (snd (rs ! 1)) = (sint (snd (rs ! 0)) - 1) mod 4)"
proof -
  have h: "(0 :: 32 word) <s 5" by (simp add: word_sless_alt)
  obtain b1' b2' fs rs where r:
    "step 5 demo_stepper demo_board = Some (demo_stepper, b1')"
    "step (- 5) demo_stepper demo_board = Some (demo_stepper, b2')"
    "emitted b1' = emitted demo_board @ fs" "emitted b2' = emitted demo_board @ rs"
    "length fs = unat (5 :: 32 word)" "length rs = unat (5 :: 32 word)"
    "snd (last fs) = snd (last rs)"
    "\<forall>j. Suc j < unat (5 :: 32 word) \<longrightarrow>
        sint (snd (fs ! Suc j)) = (sint (snd (fs ! j)) + 1) mod 4 \<and>
        sint (snd (rs ! Suc j)) = (sint (snd (rs ! j)) - 1) mod 4"
    using step_directions_mirror [OF h demo_clock_live demo_clock_live] by blast
  have "sint (snd (fs ! 1)) = (sint (snd (fs ! 0)) + 1) mod 4"
       "sint (snd (rs ! 1)) = (sint (snd (rs ! 0)) - 1) mod 4"
    using r(8) [rule_format, of 0] by simp_all
  moreover have "length fs = 5" "length rs = 5" using r(5,6) by simp_all
  ultimately show ?thesis using r(1-4,7) h demo_clock_live by blast
qed

text \<open>
  Claim C10. The last call of \<^verbatim>\<open>stepMotor\<close> of every move with nonzero
  \<^verbatim>\<open>steps_to_move\<close> has argument 0. The arguments depend on nothing but the count and
  the sign of \<^verbatim>\<open>steps_to_move\<close>: the call made with \<open>k\<close> steps still to follow has the
  argument computed from \<open>k\<close> and the direction, and no phase position is kept from one
  move to the next.
\<close>

theorem step_ends_at_phase_zero:
  assumes "steps_to_move \<noteq> 0" and "steps_to_move \<noteq> 0x80000000"
    and "clock_live s (clock b)"
  shows "\<exists>b' es. step steps_to_move s b = Some (s, b') \<and> emitted b' = emitted b @ es \<and>
           es \<noteq> [] \<and> snd (last es) = 0 \<and>
           map snd es = map (\<lambda>k. phase (of_nat k) (if 0 <s steps_to_move then - 1 else 1))
                          (rev [0..<nat \<bar>sint steps_to_move\<bar>])"
proof -
  let ?n = "nat \<bar>sint steps_to_move\<bar>"
  let ?d = "if 0 <s steps_to_move then - 1 else 1 :: 32 word"
  obtain b1 es where r: "step steps_to_move s b = Some (s, resetMotor s b1)"
    "emitted b1 = emitted b @ es" "steps_ok s ?d 0 ?n es"
    using step_runs [OF assms] by blast
  have len: "length es = ?n" using r(3) by (rule steps_ok_length)
  have pos: "0 < ?n" using step_locals(3) [OF assms(1,2)] .
  have ne: "es \<noteq> []" using len pos by auto
  have idx: "snd (es ! j) = phase (of_nat (?n - 1 - j)) ?d" if "j < ?n" for j
    using steps_ok_index [OF r(3) that] .
  have "snd (last es) = snd (es ! (?n - 1))"
    using ne len by (simp add: last_conv_nth)
  also have "\<dots> = phase (of_nat (?n - 1 - (?n - 1))) ?d"
    using pos by (intro idx) simp
  also have "\<dots> = 0" by (simp add: phase_zero)
  finally have l: "snd (last es) = 0" .
  have m: "map snd es = map (\<lambda>k. phase (of_nat k) ?d) (rev [0..<?n])"
  proof (rule nth_equalityI)
    show "length (map snd es) = length (map (\<lambda>k. phase (of_nat k) ?d) (rev [0..<?n]))"
      by (simp add: len)
  next
    fix j assume "j < length (map snd es)"
    then have j: "j < ?n" by (simp add: len)
    then have "rev [0..<?n] ! j = ?n - 1 - j"
      by (simp add: rev_nth)
    then show "map snd es ! j = map (\<lambda>k. phase (of_nat k) ?d) (rev [0..<?n]) ! j"
      using j idx [OF j] by (simp add: len)
  qed
  have "emitted (resetMotor s b1) = emitted b @ es" using r(2) by simp
  with r(1) ne l m show ?thesis by blast
qed

theorem step_ends_at_phase_zero_witness:
  "(- 3 :: 32 word) \<noteq> 0 \<and> (- 3 :: 32 word) \<noteq> 0x80000000 \<and>
   clock_live demo_stepper (clock demo_board) \<and>
   (\<exists>b' es. step (- 3) demo_stepper demo_board = Some (demo_stepper, b') \<and>
      emitted b' = emitted demo_board @ es \<and> es \<noteq> [] \<and> snd (last es) = 0)"
proof -
  have h: "(- 3 :: 32 word) \<noteq> 0" "(- 3 :: 32 word) \<noteq> 0x80000000" by simp_all
  show ?thesis
    using step_ends_at_phase_zero [OF h demo_clock_live] h demo_clock_live by blast
qed

section \<open>A move of four steps, run\<close>

text \<open>At 500 microseconds per step on the example board every poll after the first finds
  a step due: four steps forward visit the phases 1, 2, 3, 0 and leave the pins low; four
  steps backward visit 3, 2, 1, 0. The four pin patterns are four neighbouring bits of the
  byte \<^verbatim>\<open>0xCC\<close>, starting at the bit with the number of the phase.\<close>

lemma demo_move_four:
  "map_option (\<lambda>(s, b). (emitted b, map (pins b) (motor_pin s), polls b))
     (step 4 (demo_stepper\<lparr>step_delay := 500\<rparr>) demo_board) =
   Some ([(1000, 1), (2000, 2), (3000, 3), (4000, 0)], [False, False, False, False], 5)"
  by code_simp
lemma demo_move_back_four:
  "map_option (\<lambda>(s, b). map snd (emitted b)) (step (- 4) (demo_stepper\<lparr>step_delay := 500\<rparr>) demo_board) =
   Some [3, 2, 1, 0]"
  by code_simp

lemma demo_stepMotor_patterns:
  "map (\<lambda>k. map snd (writes (stepMotor demo_stepper k (demo_board)))) [0, 1, 2, 3] =
   [[False, False, True, True], [False, True, True, False],
    [True, True, False, False], [True, False, False, True]]"
  by code_simp

end
